theory Spec2Isabelle
  imports Complex_Main "HOL-Library.Word"
begin

section \<open>JavaScript values\<close>

text \<open>
  A JavaScript string is a sequence of UTF-16 code units; \<open>substring\<close>, \<open>length\<close> and
  the keys of a \<open>Map\<close> all work on code units. \<open>lit\<close> turns an ASCII literal of the
  source into code units.
\<close>

type_synonym jsstring = "16 word list"

definition lit :: "string \<Rightarrow> jsstring" where
  "lit s = map of_char s"

text \<open>
  The values that travel through the program: what \<open>JSON.parse\<close> can return, what a
  payload of the vector index holds, and \<open>undefined\<close> for a property that is absent.
  Numbers are the finite ones (JSON has no \<open>NaN\<close> and no infinity); on them \<open><\<close> and
  the sign of a difference are those of the real numbers.
\<close>

datatype jsval =
    Undefined
  | JNull
  | JBool bool
  | JNum real
  | JStr jsstring
  | JArr "jsval list"
  | JObj "(jsstring \<times> jsval) list"

datatype js_error = TypeError | ServiceError

text \<open>
  \<open>`${q}`\<close> in a template literal converts \<open>q\<close> to a string. For a value built by
  \<open>JSON.parse\<close> the conversion throws a TypeError exactly when it meets an object with
  an own property \<open>toString\<close> (never callable there, and \<open>valueOf\<close> returns the object
  itself); an array converts its elements, \<open>null\<close> and \<open>undefined\<close> apart.
\<close>

fun toString_throws :: "jsval \<Rightarrow> bool" where
  "toString_throws (JObj kvs) = (lit ''toString'' \<in> fst ` set kvs)"
| "toString_throws (JArr xs) = (\<exists>x\<in>set xs. toString_throws x)"
| "toString_throws _ = False"

text \<open>\<open>s.substring(start, end)\<close>: both indices are clamped to the length and swapped
  when they come in the wrong order.\<close>

definition substring :: "jsstring \<Rightarrow> nat \<Rightarrow> nat \<Rightarrow> jsstring" where
  "substring s start end =
     (let a = min start (length s); b = min end (length s)
      in take (max a b - min a b) (drop (min a b) s))"

text \<open>\<open>s.trim()\<close> removes the white space and line terminators of ECMAScript at
  both ends.\<close>

definition is_space :: "16 word \<Rightarrow> bool" where
  "is_space c \<longleftrightarrow>
     c \<in> {0x09, 0x0A, 0x0B, 0x0C, 0x0D, 0x20, 0xA0, 0x1680, 0x2028, 0x2029,
          0x202F, 0x205F, 0x3000, 0xFEFF}
     \<or> (0x2000 \<le> c \<and> c \<le> 0x200A)"

definition trim :: "jsstring \<Rightarrow> jsstring" where
  "trim s = rev (dropWhile is_space (rev (dropWhile is_space s)))"

text \<open>Spreading a string iterates over its code points: a high surrogate followed by a
  low surrogate is one element.\<close>

fun code_points :: "jsstring \<Rightarrow> jsstring list" where
  "code_points [] = []"
| "code_points [c] = [c] # []"
| "code_points (c # d # cs) =
     (if 0xD800 \<le> c \<and> c \<le> 0xDBFF \<and> 0xDC00 \<le> d \<and> d \<le> 0xDFFF
      then [c, d] # code_points cs
      else [c] # code_points (d # cs))"

text \<open>\<open>[...v]\<close>: an array gives its elements, a string its code points, anything else is
  not iterable.\<close>

fun spread :: "jsval \<Rightarrow> js_error + jsval list" where
  "spread (JArr xs) = Inr xs"
| "spread (JStr s) = Inr (map JStr (code_points s))"
| "spread _ = Inl TypeError"

section \<open>Data model\<close>

text \<open>A retrieval hit as \<open>singleQuerySearch\<close> builds it. The content is whatever the
  payload of the stored point holds under \<open>content\<close>; the score is the similarity the
  index reports, a finite number.\<close>

record hit =
  pageContent :: jsval
  metadata :: jsval
  score :: real
  query :: jsval

text \<open>What the vector index returns for a search: scored points, each with a payload
  (\<open>None\<close> for a point stored without one).\<close>

record payload =
  content :: jsval
  payload_metadata :: jsval

record scored_point =
  sp_payload :: "payload option"
  sp_score :: real

text \<open>A chunk of the source document, and the point upserted for it.\<close>

record document =
  doc_pageContent :: jsstring
  doc_metadata :: jsval

record point =
  pt_id :: jsstring
  pt_vector :: "real list"
  pt_payload :: payload

text \<open>
  The external collaborators, taken as parameters: each call either fails (\<open>None\<close>,
  \<open>False\<close>: the promise rejects or the call throws) or gives its result. \<open>uuidv4 i\<close>
  is the identifier drawn for the point of the \<open>i\<close>-th document.
\<close>

record services =
  generateContent :: "jsstring \<Rightarrow> jsstring option"
  JSON_parse :: "jsstring \<Rightarrow> jsval option"
  embedContent :: "jsval \<Rightarrow> real list option"
  search :: "real list \<Rightarrow> nat \<Rightarrow> scored_point list option"
  getCollections :: "jsstring list option"
  createCollection :: bool
  upsert :: "point list \<Rightarrow> bool"
  uuidv4 :: "nat \<Rightarrow> jsstring"
  collectionName :: jsstring

section \<open>Query expansion\<close>

definition newline :: jsstring where
  "newline = [0x0A]"

definition prompt :: "jsstring \<Rightarrow> jsstring" where
  \<open>prompt originalQuery =
     newline
     @ lit ''Generate three different versions of the following query to retrieve relevant information about Node.js. '' @ newline
     @ lit ''Create variations that:'' @ newline
     @ lit ''1. Focus on technical details and specifications'' @ newline
     @ lit ''2. Focus on practical use cases and examples'' @ newline
     @ lit ''3. Focus on conceptual understanding and fundamentals'' @ newline
     @ newline
     @ lit ''Original query: "'' @ originalQuery @ lit ''"'' @ newline
     @ newline
     @ lit ''Format your response as a JSON array with only the query variations. For example:'' @ newline
     @ lit ''["variation 1", "variation 2", "variation 3"]'' @ newline\<close>

text \<open>\<open>responseText.replace(/```json|```/g, '')\<close>: every match is removed, scanning from
  the left, the longer alternative first.\<close>

function strip_fences :: "jsstring \<Rightarrow> jsstring" where
  "strip_fences [] = []"
| "strip_fences (c # cs) =
     (if take 7 (c # cs) = lit ''```json'' then strip_fences (drop 7 (c # cs))
      else if take 3 (c # cs) = lit ''```'' then strip_fences (drop 3 (c # cs))
      else c # strip_fences cs)"
  by pat_completeness auto
termination
  by (relation "measure length") auto

definition fallbackVariations :: "jsstring \<Rightarrow> jsval list" where
  "fallbackVariations originalQuery =
     [JStr originalQuery,
      JStr (lit ''What are the technical aspects of '' @ originalQuery @ lit ''?''),
      JStr (lit ''Examples of '' @ originalQuery @ lit '' in Node.js''),
      JStr (lit ''Explain the concept of '' @ originalQuery @ lit '' in Node.js'')]"

definition generateQueryVariations :: "services \<Rightarrow> jsstring \<Rightarrow> jsval list" where
  "generateQueryVariations env originalQuery =
     (case generateContent env (prompt originalQuery) of
        None \<Rightarrow> [JStr originalQuery]
      | Some responseText \<Rightarrow>
          (let jsonText = trim (strip_fences responseText) in
           case JSON_parse env jsonText of
             None \<Rightarrow> fallbackVariations originalQuery
           | Some variations \<Rightarrow>
               (case spread variations of
                  Inl e \<Rightarrow> fallbackVariations originalQuery
                | Inr vs \<Rightarrow> JStr originalQuery # vs)))"

section \<open>Search with a single query\<close>

definition getEmbeddings :: "services \<Rightarrow> jsval \<Rightarrow> js_error + real list" where
  "getEmbeddings env text =
     (case embedContent env text of
        None \<Rightarrow> Inl ServiceError
      | Some values \<Rightarrow> Inr values)"

text \<open>
  The \<open>try\<close> block of \<open>singleQuerySearch\<close>: the embedding call, the search call, and
  the conversion of the points, where \<open>hit.payload.content\<close> throws on a point without
  payload.
\<close>

definition singleQuerySearch_try :: "services \<Rightarrow> jsval \<Rightarrow> nat \<Rightarrow> js_error + hit list" where
  "singleQuerySearch_try env q k =
     (case getEmbeddings env q of
        Inl e \<Rightarrow> Inl e
      | Inr queryEmbedding \<Rightarrow>
          (case search env queryEmbedding k of
             None \<Rightarrow> Inl ServiceError
           | Some searchResult \<Rightarrow>
               (if \<exists>p\<in>set searchResult. sp_payload p = None then Inl TypeError
                else Inr (map (\<lambda>p. \<lparr>pageContent = content (the (sp_payload p)),
                                     metadata = payload_metadata (the (sp_payload p)),
                                     score = sp_score p,
                                     query = q\<rparr>) searchResult))))"

text \<open>The \<open>catch\<close> block logs the query through a template literal, then returns the
  empty list.\<close>

definition singleQuerySearch :: "services \<Rightarrow> jsval \<Rightarrow> nat \<Rightarrow> js_error + hit list" where
  "singleQuerySearch env q k =
     (case singleQuerySearch_try env q k of
        Inr hits \<Rightarrow> Inr hits
      | Inl e \<Rightarrow> if toString_throws q then Inl TypeError else Inr [])"

section \<open>Parallel search and merge\<close>

text \<open>\<open>Promise.all\<close>: the results in the order of the promises, or a rejection when one
  of them rejects.\<close>

fun promise_all :: "(js_error + 'a) list \<Rightarrow> js_error + 'a list" where
  "promise_all [] = Inr []"
| "promise_all (Inl e # ps) = Inl e"
| "promise_all (Inr x # ps) =
     (case promise_all ps of Inl e \<Rightarrow> Inl e | Inr xs \<Rightarrow> Inr (x # xs))"

definition allResults :: "services \<Rightarrow> jsval list \<Rightarrow> nat \<Rightarrow> js_error + hit list list" where
  "allResults env queryVariations k =
     promise_all (map (\<lambda>q. singleQuerySearch env q k) queryVariations)"

text \<open>
  A \<open>Map\<close> keeps its keys in insertion order; \<open>set\<close> on a key that is present replaces
  the value where it stands.
\<close>

type_synonym content_map = "(jsstring \<times> hit) list"

fun map_set :: "content_map \<Rightarrow> jsstring \<Rightarrow> hit \<Rightarrow> content_map" where
  "map_set [] k v = [(k, v)]"
| "map_set ((k', v') # m) k v =
     (if k' = k then (k, v) # m else (k', v') # map_set m k v)"

definition map_has :: "content_map \<Rightarrow> jsstring \<Rightarrow> bool" where
  "map_has m k \<longleftrightarrow> map_of m k \<noteq> None"

definition map_get :: "content_map \<Rightarrow> jsstring \<Rightarrow> hit" where
  "map_get m k = the (map_of m k)"

definition map_values :: "content_map \<Rightarrow> hit list" where
  "map_values m = map snd m"

text \<open>\<open>result.pageContent.substring(0, 100)\<close> throws a TypeError unless the content is
  a string.\<close>

definition contentIdentifier :: "hit \<Rightarrow> js_error + jsstring" where
  "contentIdentifier result =
     (case pageContent result of
        JStr s \<Rightarrow> Inr (substring s 0 100)
      | _ \<Rightarrow> Inl TypeError)"

text \<open>The body of the \<open>forEach\<close> callback, and the loop over the flattened results.\<close>

definition dedup_step :: "content_map \<Rightarrow> hit \<Rightarrow> js_error + content_map" where
  "dedup_step contentMap result =
     (case contentIdentifier result of
        Inl e \<Rightarrow> Inl e
      | Inr cid \<Rightarrow>
          if \<not> map_has contentMap cid \<or> score (map_get contentMap cid) < score result
          then Inr (map_set contentMap cid result)
          else Inr contentMap)"

fun dedup :: "content_map \<Rightarrow> hit list \<Rightarrow> js_error + content_map" where
  "dedup contentMap [] = Inr contentMap"
| "dedup contentMap (result # rest) =
     (case dedup_step contentMap result of
        Inl e \<Rightarrow> Inl e
      | Inr contentMap' \<Rightarrow> dedup contentMap' rest)"

text \<open>\<open>.sort((a, b) => b.score - a.score)\<close> is a stable sort by descending score, and
  \<open>.slice(0, k)\<close> keeps the first \<open>k\<close> entries; \<open>k\<close> is a count.\<close>

definition sort_by_score :: "hit list \<Rightarrow> hit list" where
  "sort_by_score hs = sort_key (\<lambda>h. - score h) hs"

definition mergedResults :: "hit list \<Rightarrow> nat \<Rightarrow> js_error + hit list" where
  "mergedResults flatResults k =
     (case dedup [] flatResults of
        Inl e \<Rightarrow> Inl e
      | Inr contentMap \<Rightarrow> Inr (take k (sort_by_score (map_values contentMap))))"

text \<open>The \<open>try\<close> block of \<open>parallelQuerySearch\<close>: expansion, the log of the variations
  (a template literal for each), the searches, the merge.\<close>

definition parallelQuerySearch_try :: "services \<Rightarrow> jsstring \<Rightarrow> nat \<Rightarrow> js_error + hit list" where
  "parallelQuerySearch_try env originalQuery k =
     (let queryVariations = generateQueryVariations env originalQuery in
      if \<exists>q\<in>set queryVariations. toString_throws q then Inl TypeError
      else
        (case allResults env queryVariations k of
           Inl e \<Rightarrow> Inl e
         | Inr results \<Rightarrow> mergedResults (concat results) k))"

definition parallelQuerySearch :: "services \<Rightarrow> jsstring \<Rightarrow> nat \<Rightarrow> js_error + hit list" where
  "parallelQuerySearch env originalQuery k =
     (case parallelQuerySearch_try env originalQuery k of
        Inr merged \<Rightarrow> Inr merged
      | Inl e \<Rightarrow> singleQuerySearch env (JStr originalQuery) k)"

section \<open>Indexing\<close>

definition createCollectionIfNotExists :: "services \<Rightarrow> js_error + unit" where
  "createCollectionIfNotExists env =
     (case getCollections env of
        None \<Rightarrow> Inl ServiceError
      | Some names \<Rightarrow>
          if collectionName env \<in> set names then Inr ()
          else if createCollection env then Inr ()
          else Inl ServiceError)"

text \<open>\<open>xs.slice(start, end)\<close> on indices that are not negative.\<close>

definition slice :: "'a list \<Rightarrow> nat \<Rightarrow> nat \<Rightarrow> 'a list" where
  "slice xs start end =
     (let a = min start (length xs); b = min end (length xs)
      in take (b - a) (drop a xs))"

text \<open>\<open>doc.metadata || {}\<close>: a falsy value is replaced by the empty object.\<close>

fun falsy :: "jsval \<Rightarrow> bool" where
  "falsy Undefined = True"
| "falsy JNull = True"
| "falsy (JBool b) = (\<not> b)"
| "falsy (JNum x) = (x = 0)"
| "falsy (JStr s) = (s = [])"
| "falsy _ = False"

definition makePoint :: "services \<Rightarrow> nat \<Rightarrow> document \<Rightarrow> js_error + point" where
  "makePoint env i doc =
     (case getEmbeddings env (JStr (doc_pageContent doc)) of
        Inl e \<Rightarrow> Inl e
      | Inr embedding \<Rightarrow>
          Inr \<lparr>pt_id = uuidv4 env i,
               pt_vector = embedding,
               pt_payload = \<lparr>content = JStr (doc_pageContent doc),
                             payload_metadata =
                               (if falsy (doc_metadata doc) then JObj [] else doc_metadata doc)\<rparr>\<rparr>)"

text \<open>
  The calls made to the services while indexing, in the order in which they are made:
  a text handed to the embedding service, or a batch of points handed to \<open>upsert\<close>.
  \<open>embed_calls\<close> and \<open>upsert_calls\<close> read the calls of one kind off a trace.
\<close>

datatype event = Embed jsval | Upsert "point list"

type_synonym trace = "event list"

fun embed_calls :: "trace \<Rightarrow> jsval list" where
  "embed_calls [] = []"
| "embed_calls (Embed text # tr) = text # embed_calls tr"
| "embed_calls (Upsert points # tr) = embed_calls tr"

fun upsert_calls :: "trace \<Rightarrow> point list list" where
  "upsert_calls [] = []"
| "upsert_calls (Embed text # tr) = upsert_calls tr"
| "upsert_calls (Upsert points # tr) = points # upsert_calls tr"

definition batchSize :: nat where
  "batchSize = 20"

text \<open>
  The \<open>for\<close> loop, from index \<open>i\<close> on. \<open>batch.map\<close> starts the embedding of every
  document of the batch before \<open>Promise.all\<close> is awaited, so a failing batch has issued
  all its embedding calls and no upsert. The upsert is awaited before the next turn of
  the loop starts.
\<close>

function indexBatches ::
  "services \<Rightarrow> document list \<Rightarrow> nat \<Rightarrow> trace \<Rightarrow> (js_error + unit) \<times> trace" where
  "indexBatches env documents i tr =
     (if i < length documents then
        (let batch = slice documents i (min (i + batchSize) (length documents));
             tr1 = tr @ map (\<lambda>doc. Embed (JStr (doc_pageContent doc))) batch
         in case promise_all (map (\<lambda>(j, doc). makePoint env j doc) (zip [i ..< i + length batch] batch)) of
              Inl e \<Rightarrow> (Inl e, tr1)
            | Inr points \<Rightarrow>
                (let tr2 = tr1 @ [Upsert points]
                 in if upsert env points then indexBatches env documents (i + batchSize) tr2
                    else (Inl ServiceError, tr2)))
      else (Inr (), tr))"
  by pat_completeness auto
termination
  by (relation "measure (\<lambda>(env, documents, i, tr). length documents - i)")
     (auto simp: batchSize_def)

declare indexBatches.simps [simp del]

definition addDocumentsToVectorStore ::
  "services \<Rightarrow> document list \<Rightarrow> (js_error + unit) \<times> trace" where
  "addDocumentsToVectorStore env documents =
     (case createCollectionIfNotExists env of
        Inl e \<Rightarrow> (Inl e, [])
      | Inr u \<Rightarrow> indexBatches env documents 0 [])"

section \<open>Predicates used in the proofs\<close>

text \<open>
  \<open>first_best seen cid kept\<close>: among the hits of \<open>seen\<close> with identifier \<open>cid\<close>,
  \<open>kept\<close> is the first one of highest score. \<open>dedup_inv seen m\<close>: the map \<open>m\<close> holds,
  for each identifier met in \<open>seen\<close>, that hit and nothing else.
\<close>

definition first_best :: "hit list \<Rightarrow> jsstring \<Rightarrow> hit \<Rightarrow> bool" where
  "first_best seen cid kept \<longleftrightarrow>
     contentIdentifier kept = Inr cid \<and>
     (\<exists>pre post. seen = pre @ kept # post
        \<and> (\<forall>h\<in>set pre. contentIdentifier h = Inr cid \<longrightarrow> score h < score kept)
        \<and> (\<forall>h\<in>set post. contentIdentifier h = Inr cid \<longrightarrow> score h \<le> score kept))"

definition dedup_inv :: "hit list \<Rightarrow> content_map \<Rightarrow> bool" where
  "dedup_inv seen m \<longleftrightarrow>
     distinct (map fst m) \<and>
     (\<forall>cid. case map_of m cid of
              None \<Rightarrow> (\<forall>h\<in>set seen. contentIdentifier h \<noteq> Inr cid)
            | Some kept \<Rightarrow> first_best seen cid kept)"

definition text_of :: "hit \<Rightarrow> jsstring" where
  "text_of h = (case pageContent h of JStr s \<Rightarrow> s | _ \<Rightarrow> [])"

section \<open>Concrete inputs\<close>

definition hit_a :: hit where
  "hit_a = \<lparr>pageContent = JStr (lit ''aaa''), metadata = JNull, score = 0.9,
            query = JStr (lit ''q1'')\<rparr>"

definition hit_b :: hit where
  "hit_b = \<lparr>pageContent = JStr (lit ''aaa''), metadata = JNull, score = 0.95,
            query = JStr (lit ''q2'')\<rparr>"

definition hit_c :: hit where
  "hit_c = \<lparr>pageContent = JStr (lit ''bbb''), metadata = JNull, score = 0.5,
            query = JStr (lit ''q2'')\<rparr>"

definition hit_d :: hit where
  "hit_d = \<lparr>pageContent = JStr (lit ''aaa''), metadata = JNull, score = 0.95,
            query = JStr (lit ''q3'')\<rparr>"

text \<open>
  An environment for the examples: the generative service answers \<open>response\<close>, the
  embedding service fails on the text \<open>bad\<close> only, the index returns the first \<open>k\<close> of
  \<open>points\<close>. \<open>parse_ex\<close> is \<open>JSON.parse\<close> on the two arrays used below and rejects
  the prose answer.
\<close>

definition parse_ex :: "jsstring \<Rightarrow> jsval option" where
  \<open>parse_ex t =
     (if t = lit ''["x", "y"]'' then Some (JArr [JStr (lit ''x''), JStr (lit ''y'')])
      else if t = lit ''["a", "b", "c"]''
        then Some (JArr [JStr (lit ''a''), JStr (lit ''b''), JStr (lit ''c'')])
      else None)\<close>

definition embed_ex :: "jsval \<Rightarrow> real list option" where
  "embed_ex text = (if text = JStr (lit ''bad'') then None else Some [1])"

definition env_ex :: "jsstring option \<Rightarrow> scored_point list \<Rightarrow> services" where
  "env_ex response points =
     \<lparr>generateContent = (\<lambda>p. response),
      JSON_parse = parse_ex,
      embedContent = embed_ex,
      search = (\<lambda>v k. Some (take k points)),
      getCollections = Some [],
      createCollection = True,
      upsert = (\<lambda>ps. True),
      uuidv4 = (\<lambda>i. replicate (Suc i) 0x61),
      collectionName = lit ''learning_langchain''\<rparr>"

definition response_two :: jsstring where
  \<open>response_two = lit ''```json'' @ newline @ lit ''["x", "y"]'' @ newline @ lit ''```''\<close>

definition response_three :: jsstring where
  \<open>response_three = lit ''```json'' @ newline @ lit ''["a", "b", "c"]'' @ newline @ lit ''```''\<close>

definition response_prose :: jsstring where
  \<open>response_prose = lit ''Here are three variations.''\<close>

definition point_a :: scored_point where
  "point_a = \<lparr>sp_payload = Some \<lparr>content = JStr (lit ''aaa''), payload_metadata = JNull\<rparr>,
              sp_score = 0.9\<rparr>"

definition point_u :: scored_point where
  "point_u = \<lparr>sp_payload = Some \<lparr>content = Undefined, payload_metadata = JNull\<rparr>,
              sp_score = 0.8\<rparr>"

definition doc_ex :: "string \<Rightarrow> document" where
  "doc_ex s = \<lparr>doc_pageContent = lit s, doc_metadata = Undefined\<rparr>"

lemmas ex_defs = env_ex_def parse_ex_def embed_ex_def response_two_def response_three_def
  response_prose_def point_a_def point_u_def lit_def newline_def trim_def is_space_def

section \<open>The merge step\<close>

lemma substring_0: "substring s 0 n = take n s"
  by (cases "n \<le> length s") (simp_all add: substring_def min_def)

lemma map_of_map_set: "map_of (map_set m k v) = (map_of m)(k \<mapsto> v)"
  by (induction m k v rule: map_set.induct) auto

lemma keys_map_set: "fst ` set (map_set m k v) = insert k (fst ` set m)"
  by (induction m k v rule: map_set.induct) auto

lemma distinct_map_set: "distinct (map fst m) \<Longrightarrow> distinct (map fst (map_set m k v))"
  by (induction m k v rule: map_set.induct) (auto simp: keys_map_set)

lemma set_map_set: "set (map_set m k v) \<subseteq> insert (k, v) (set m)"
  by (induction m k v rule: map_set.induct) auto

lemma first_best_le:
  "first_best seen cid kept \<Longrightarrow> h \<in> set seen \<Longrightarrow> contentIdentifier h = Inr cid \<Longrightarrow> score h \<le> score kept"
  unfolding first_best_def by force

lemma first_best_snoc_other:
  assumes "first_best seen cid kept" "contentIdentifier h = Inr cid \<longrightarrow> score h \<le> score kept"
  shows "first_best (seen @ [h]) cid kept"
proof -
  from assms(1) obtain pre post where k: "contentIdentifier kept = Inr cid" and s: "seen = pre @ kept # post"
    and p: "\<forall>h\<in>set pre. contentIdentifier h = Inr cid \<longrightarrow> score h < score kept"
    and q: "\<forall>h\<in>set post. contentIdentifier h = Inr cid \<longrightarrow> score h \<le> score kept"
    unfolding first_best_def by blast
  have "seen @ [h] = pre @ kept # (post @ [h])" using s by simp
  moreover have "\<forall>x\<in>set (post @ [h]). contentIdentifier x = Inr cid \<longrightarrow> score x \<le> score kept"
    using q assms(2) by auto
  ultimately show ?thesis unfolding first_best_def using k p by blast
qed

lemma first_best_snoc_new:
  assumes "contentIdentifier h = Inr cid" "\<forall>x\<in>set seen. contentIdentifier x = Inr cid \<longrightarrow> score x < score h"
  shows "first_best (seen @ [h]) cid h"
proof -
  have "seen @ [h] = seen @ h # []" by simp
  then show ?thesis unfolding first_best_def using assms by fastforce
qed

lemma dedup_step_inv:
  assumes inv: "dedup_inv seen m" and st: "dedup_step m h = Inr m'"
  shows "dedup_inv (seen @ [h]) m'"
proof -
  from st obtain cid where cid: "contentIdentifier h = Inr cid"
    by (auto simp: dedup_step_def split: sum.splits)
  from inv have d: "distinct (map fst m)"
    and c: "\<And>c. case map_of m c of None \<Rightarrow> (\<forall>h\<in>set seen. contentIdentifier h \<noteq> Inr c)
            | Some kept \<Rightarrow> first_best seen c kept"
    unfolding dedup_inv_def by blast+
  show ?thesis
  proof (cases "map_of m cid")
    case None
    then have m': "m' = map_set m cid h" using st cid by (simp add: dedup_step_def map_has_def)
    have new: "first_best (seen @ [h]) cid h"
      using c[of cid] None cid by (intro first_best_snoc_new) auto
    show ?thesis
      unfolding dedup_inv_def m' map_of_map_set
    proof (intro conjI allI)
      show "distinct (map fst (map_set m cid h))" using d by (rule distinct_map_set)
    next
      fix c' show "case ((map_of m)(cid \<mapsto> h)) c' of None \<Rightarrow> \<forall>h\<in>set (seen @ [h]). contentIdentifier h \<noteq> Inr c'
            | Some kept \<Rightarrow> first_best (seen @ [h]) c' kept"
      proof (cases "c' = cid")
        case True then show ?thesis using new by simp
      next
        case False
        then show ?thesis using c[of c'] cid
          by (auto split: option.splits intro: first_best_snoc_other)
      qed
    qed
  next
    case (Some old)
    then have old: "first_best seen cid old" using c[of cid] by simp
    show ?thesis
    proof (cases "score old < score h")
      case True
      then have m': "m' = map_set m cid h" using st cid Some by (simp add: dedup_step_def map_has_def map_get_def)
      have new: "first_best (seen @ [h]) cid h"
      proof (intro first_best_snoc_new cid ballI impI)
        fix x assume "x \<in> set seen" "contentIdentifier x = Inr cid"
        then have "score x \<le> score old" using first_best_le[OF old] by blast
        then show "score x < score h" using True by simp
      qed
      show ?thesis
        unfolding dedup_inv_def m' map_of_map_set
      proof (intro conjI allI)
        show "distinct (map fst (map_set m cid h))" using d by (rule distinct_map_set)
      next
        fix c' show "case ((map_of m)(cid \<mapsto> h)) c' of None \<Rightarrow> \<forall>h\<in>set (seen @ [h]). contentIdentifier h \<noteq> Inr c'
            | Some kept \<Rightarrow> first_best (seen @ [h]) c' kept"
        proof (cases "c' = cid")
          case True then show ?thesis using new by simp
        next
          case False
          then show ?thesis using c[of c'] cid
            by (auto split: option.splits intro: first_best_snoc_other)
        qed
      qed
    next
      case False
      then have m': "m' = m" using st cid Some by (simp add: dedup_step_def map_has_def map_get_def)
      show ?thesis
        unfolding dedup_inv_def m'
      proof (intro conjI allI)
        show "distinct (map fst m)" by (rule d)
      next
        fix c' show "case map_of m c' of None \<Rightarrow> \<forall>h\<in>set (seen @ [h]). contentIdentifier h \<noteq> Inr c'
            | Some kept \<Rightarrow> first_best (seen @ [h]) c' kept"
        proof (cases "c' = cid")
          case True then show ?thesis using Some old False cid
            by (auto intro: first_best_snoc_other)
        next
          case False
          then show ?thesis using c[of c'] cid
            by (auto split: option.splits intro: first_best_snoc_other)
        qed
      qed
    qed
  qed
qed

lemma dedup_inv_run:
  "dedup_inv seen m \<Longrightarrow> dedup m hs = Inr m' \<Longrightarrow> dedup_inv (seen @ hs) m'"
proof (induction hs arbitrary: seen m)
  case Nil
  then show ?case by simp
next
  case (Cons h hs)
  from Cons.prems(2) obtain m1 where s: "dedup_step m h = Inr m1" and r: "dedup m1 hs = Inr m'"
    by (auto split: sum.splits)
  have "dedup_inv (seen @ [h]) m1" using Cons.prems(1) s by (rule dedup_step_inv)
  from Cons.IH[OF this r] show ?case by simp
qed

lemma dedup_inv_empty: "dedup_inv [] []"
  by (simp add: dedup_inv_def)

lemma dedup_inv_result: "dedup [] hs = Inr m \<Longrightarrow> dedup_inv hs m"
  using dedup_inv_run[OF dedup_inv_empty] by fastforce

lemma contentIdentifier_Inr:
  "contentIdentifier h = Inr cid \<longleftrightarrow> (\<exists>s. pageContent h = JStr s \<and> cid = take 100 s)"
  by (auto simp: contentIdentifier_def substring_0 split: jsval.splits)

lemma contentIdentifier_text_of:
  "contentIdentifier h = Inr cid \<Longrightarrow> pageContent h = JStr (text_of h) \<and> cid = take 100 (text_of h)"
  by (auto simp: contentIdentifier_Inr text_of_def)

lemma distinct_map_Inr: "distinct (map Inr xs) = distinct xs"
  by (induction xs) auto

lemma dedup_inv_entry:
  assumes "dedup_inv seen m" "(cid, h) \<in> set m"
  shows "first_best seen cid h"
proof -
  from assms(1) have c: "\<And>c. case map_of m c of None \<Rightarrow> (\<forall>h\<in>set seen. contentIdentifier h \<noteq> Inr c)
            | Some kept \<Rightarrow> first_best seen c kept"
    unfolding dedup_inv_def by blast
  from assms have "map_of m cid = Some h" by (simp add: dedup_inv_def)
  with c[of cid] show ?thesis by simp
qed

lemma dedup_inv_absent:
  assumes "dedup_inv seen m" "map_of m cid = None" "h \<in> set seen"
  shows "contentIdentifier h \<noteq> Inr cid"
proof -
  from assms(1) have c: "\<And>c. case map_of m c of None \<Rightarrow> (\<forall>h\<in>set seen. contentIdentifier h \<noteq> Inr c)
            | Some kept \<Rightarrow> first_best seen c kept"
    unfolding dedup_inv_def by blast
  from c[of cid] assms(2,3) show ?thesis by simp
qed

lemma dedup_inv_keys:
  assumes "dedup_inv seen m"
  shows "map contentIdentifier (map snd m) = map Inr (map fst m)"
proof -
  have "\<forall>p\<in>set m. contentIdentifier (snd p) = Inr (fst p)"
    using dedup_inv_entry[OF assms] by (auto simp: first_best_def)
  then show ?thesis by simp
qed

lemma distinct_map_take_sort:
  assumes "distinct (map f xs)"
  shows "distinct (map f (take k (sort_key g xs)))"
proof -
  from assms have d: "distinct xs" and i: "inj_on f (set xs)" by (simp_all add: distinct_map)
  have "set (take k (sort_key g xs)) \<subseteq> set xs" using set_take_subset[of k "sort_key g xs"] by simp
  then have "inj_on f (set (take k (sort_key g xs)))" using i by (rule inj_on_subset[rotated])
  moreover have "distinct (take k (sort_key g xs))" using d by simp
  ultimately show ?thesis by (simp add: distinct_map)
qed

lemma sorted_desc_take_sort:
  "sorted_wrt (\<lambda>a b. score b \<le> score a) (take k (sort_by_score hs))"
proof -
  have "sorted (map (\<lambda>h. - score h) (sort_by_score hs))"
    unfolding sort_by_score_def by (rule sorted_sort_key)
  then have "sorted_wrt (\<lambda>a b. score b \<le> score a) (sort_by_score hs)"
    by (simp add: sorted_map)
  then show ?thesis by (rule sorted_wrt_take)
qed

lemma mergedResults_Inr:
  "mergedResults flatResults k = Inr merged \<longleftrightarrow>
     (\<exists>m. dedup [] flatResults = Inr m \<and> merged = take k (sort_by_score (map_values m)))"
  by (auto simp: mergedResults_def split: sum.splits)

text \<open>The loop, and with it the merge step, returns exactly when the content of every
  hit is a string; otherwise \<open>substring\<close> throws.\<close>

lemma dedup_step_returns:
  "(\<exists>m'. dedup_step m h = Inr m') \<longleftrightarrow> (\<exists>s. pageContent h = JStr s)"
  by (auto simp: dedup_step_def contentIdentifier_def split: jsval.splits)

lemma dedup_returns:
  "(\<exists>m'. dedup m hs = Inr m') \<longleftrightarrow> (\<forall>h\<in>set hs. \<exists>s. pageContent h = JStr s)"
proof (induction hs arbitrary: m)
  case Nil
  then show ?case by simp
next
  case (Cons h hs)
  show ?case
  proof (cases "dedup_step m h")
    case (Inl e)
    then have "\<not> (\<exists>s. pageContent h = JStr s)"
      using dedup_step_returns [of m h] by simp
    with Inl show ?thesis by simp
  next
    case (Inr m1)
    then have "\<exists>s. pageContent h = JStr s"
      using dedup_step_returns [of m h] by simp
    with Inr Cons.IH [of m1] show ?thesis by simp
  qed
qed

lemma mergedResults_returns:
  "(\<exists>merged. mergedResults flatResults k = Inr merged)
     \<longleftrightarrow> (\<forall>h\<in>set flatResults. \<exists>s. pageContent h = JStr s)"
  using dedup_returns [of "[]" flatResults]
  by (auto simp: mergedResults_def split: sum.splits)

text \<open>
  Claim C1. Whatever the flattened list of hits and the count \<open>k\<close>, the list the merge
  step returns has three properties: its entries have pairwise different identity keys
  (the first 100 code units of the content text), each entry's score is at least the
  score of the entry after it, and it has at most \<open>k\<close> entries.
\<close>

theorem mergedResults_invariants:
  assumes "mergedResults flatResults k = Inr merged"
  shows "(\<exists>ss. map pageContent merged = map JStr ss \<and> distinct (map (take 100) ss))
       \<and> (\<forall>i. Suc i < length merged \<longrightarrow> score (merged ! Suc i) \<le> score (merged ! i))
       \<and> length merged \<le> k"
proof -
  from assms obtain m where m: "dedup [] flatResults = Inr m"
    and merged: "merged = take k (sort_by_score (map_values m))"
    by (auto simp: mergedResults_Inr)
  have inv: "dedup_inv flatResults m" using m by (rule dedup_inv_result)
  have keys: "map contentIdentifier (map_values m) = map Inr (map fst m)"
    unfolding map_values_def using inv by (rule dedup_inv_keys)
  have "distinct (map fst m)" using inv by (simp add: dedup_inv_def)
  then have "distinct (map contentIdentifier (map_values m))"
    unfolding keys by (simp only: distinct_map_Inr)
  then have dm: "distinct (map contentIdentifier merged)"
    unfolding merged sort_by_score_def by (rule distinct_map_take_sort)
  have sub: "set merged \<subseteq> snd ` set m"
    unfolding merged sort_by_score_def map_values_def
    using set_take_subset[of k "sort_key (\<lambda>h. - score h) (map snd m)"] by simp
  have each: "contentIdentifier h = Inr (take 100 (text_of h)) \<and> pageContent h = JStr (text_of h)"
    if "h \<in> set merged" for h
  proof -
    from that sub obtain cid where "(cid, h) \<in> set m" by auto
    then have "contentIdentifier h = Inr cid"
      using dedup_inv_entry[OF inv] by (simp add: first_best_def)
    then show ?thesis using contentIdentifier_text_of by blast
  qed
  have pc: "map pageContent merged = map JStr (map text_of merged)"
    using each by simp
  have "map contentIdentifier merged = map Inr (map (take 100) (map text_of merged))"
    using each by simp
  with dm have "distinct (map (take 100) (map text_of merged))"
    by (simp only: distinct_map_Inr)
  with pc have 1: "\<exists>ss. map pageContent merged = map JStr ss \<and> distinct (map (take 100) ss)"
    by blast
  have "sorted_wrt (\<lambda>a b. score b \<le> score a) merged"
    unfolding merged by (rule sorted_desc_take_sort)
  then have 2: "\<forall>i. Suc i < length merged \<longrightarrow> score (merged ! Suc i) \<le> score (merged ! i)"
    by (simp add: sorted_wrt_iff_nth_less)
  have 3: "length merged \<le> k" unfolding merged by simp
  from 1 2 3 show ?thesis by blast
qed

theorem mergedResults_invariants_witness:
  "mergedResults [hit_a, hit_b, hit_c] 4 = Inr [hit_b, hit_c]
   \<and> (\<exists>ss. map pageContent [hit_b, hit_c] = map JStr ss \<and> distinct (map (take 100) ss))
   \<and> score ([hit_b, hit_c] ! Suc 0) \<le> score ([hit_b, hit_c] ! 0)
   \<and> length [hit_b, hit_c] \<le> 4"
proof -
  have e: "mergedResults [hit_a, hit_b, hit_c] 4 = Inr [hit_b, hit_c]"
    by (simp add: mergedResults_def dedup_step_def contentIdentifier_def map_has_def
        map_get_def substring_def lit_def sort_by_score_def map_values_def
        hit_a_def hit_b_def hit_c_def)
  note inv = mergedResults_invariants [OF e]
  from inv have "\<forall>i. Suc i < length [hit_b, hit_c]
      \<longrightarrow> score ([hit_b, hit_c] ! Suc i) \<le> score ([hit_b, hit_c] ! i)"
    by blast
  then have "score ([hit_b, hit_c] ! Suc 0) \<le> score ([hit_b, hit_c] ! 0)"
    by simp
  with e inv show ?thesis by blast
qed

text \<open>
  Claim C2. The deduplication loop leaves one entry for each identity key (the first
  100 code units of the content text) that occurs in the input, and the hit kept under
  a key is the first hit of highest score with that key: every hit with the same key
  before it in the input has a strictly lower score, every one after it a score that
  is not higher.
\<close>

theorem dedup_keeps_first_highest:
  assumes "dedup [] flatResults = Inr contentMap"
  shows "distinct (map fst contentMap)
       \<and> fst ` set contentMap = {cid. \<exists>h\<in>set flatResults. \<exists>s. pageContent h = JStr s \<and> cid = take 100 s}
       \<and> (\<forall>p\<in>set contentMap. \<exists>s pre post.
             pageContent (snd p) = JStr s \<and> fst p = take 100 s
           \<and> flatResults = pre @ snd p # post
           \<and> (\<forall>h\<in>set pre. \<forall>t. pageContent h = JStr t \<and> take 100 t = take 100 s \<longrightarrow> score h < score (snd p))
           \<and> (\<forall>h\<in>set post. \<forall>t. pageContent h = JStr t \<and> take 100 t = take 100 s \<longrightarrow> score h \<le> score (snd p)))"
proof -
  have inv: "dedup_inv flatResults contentMap" using assms by (rule dedup_inv_result)
  then have 1: "distinct (map fst contentMap)" by (simp add: dedup_inv_def)
  have 2: "fst ` set contentMap = {cid. \<exists>h\<in>set flatResults. \<exists>s. pageContent h = JStr s \<and> cid = take 100 s}"
  proof (intro set_eqI iffI)
    fix cid assume "cid \<in> fst ` set contentMap"
    then obtain h where "(cid, h) \<in> set contentMap" by auto
    then have "first_best flatResults cid h" using dedup_inv_entry[OF inv] by simp
    then have "h \<in> set flatResults" "contentIdentifier h = Inr cid"
      by (auto simp: first_best_def)
    then show "cid \<in> {cid. \<exists>h\<in>set flatResults. \<exists>s. pageContent h = JStr s \<and> cid = take 100 s}"
      using contentIdentifier_Inr by blast
  next
    fix cid assume "cid \<in> {cid. \<exists>h\<in>set flatResults. \<exists>s. pageContent h = JStr s \<and> cid = take 100 s}"
    then obtain h where h: "h \<in> set flatResults" "contentIdentifier h = Inr cid"
      using contentIdentifier_Inr by blast
    have "map_of contentMap cid \<noteq> None"
      using dedup_inv_absent[OF inv _ h(1)] h(2) by blast
    then show "cid \<in> fst ` set contentMap" by (simp add: map_of_eq_None_iff)
  qed
  have 3: "\<forall>p\<in>set contentMap. \<exists>s pre post.
             pageContent (snd p) = JStr s \<and> fst p = take 100 s
           \<and> flatResults = pre @ snd p # post
           \<and> (\<forall>h\<in>set pre. \<forall>t. pageContent h = JStr t \<and> take 100 t = take 100 s \<longrightarrow> score h < score (snd p))
           \<and> (\<forall>h\<in>set post. \<forall>t. pageContent h = JStr t \<and> take 100 t = take 100 s \<longrightarrow> score h \<le> score (snd p))"
  proof
    fix p assume "p \<in> set contentMap"
    then have "(fst p, snd p) \<in> set contentMap" by simp
    then have fb: "first_best flatResults (fst p) (snd p)" using dedup_inv_entry[OF inv] by blast
    then obtain s where s: "pageContent (snd p) = JStr s" "fst p = take 100 s"
      unfolding first_best_def contentIdentifier_Inr by blast
    from fb have "\<exists>pre post. flatResults = pre @ snd p # post
      \<and> (\<forall>h\<in>set pre. contentIdentifier h = Inr (fst p) \<longrightarrow> score h < score (snd p))
      \<and> (\<forall>h\<in>set post. contentIdentifier h = Inr (fst p) \<longrightarrow> score h \<le> score (snd p))"
      unfolding first_best_def by blast
    then obtain pre post where split: "flatResults = pre @ snd p # post"
      and before: "\<forall>h\<in>set pre. contentIdentifier h = Inr (fst p) \<longrightarrow> score h < score (snd p)"
      and after: "\<forall>h\<in>set post. contentIdentifier h = Inr (fst p) \<longrightarrow> score h \<le> score (snd p)"
      by blast
    have b': "\<forall>h\<in>set pre. \<forall>t. pageContent h = JStr t \<and> take 100 t = take 100 s \<longrightarrow> score h < score (snd p)"
      using before s(2) by (simp add: contentIdentifier_Inr)
    have a': "\<forall>h\<in>set post. \<forall>t. pageContent h = JStr t \<and> take 100 t = take 100 s \<longrightarrow> score h \<le> score (snd p)"
      using after s(2) by (simp add: contentIdentifier_Inr)
    from s split b' a' show "\<exists>s pre post.
             pageContent (snd p) = JStr s \<and> fst p = take 100 s
           \<and> flatResults = pre @ snd p # post
           \<and> (\<forall>h\<in>set pre. \<forall>t. pageContent h = JStr t \<and> take 100 t = take 100 s \<longrightarrow> score h < score (snd p))
           \<and> (\<forall>h\<in>set post. \<forall>t. pageContent h = JStr t \<and> take 100 t = take 100 s \<longrightarrow> score h \<le> score (snd p))"
      by blast
  qed
  from 1 2 3 show ?thesis by blast
qed

theorem dedup_keeps_first_highest_witness:
  "dedup [] [hit_a, hit_b, hit_d, hit_c] = Inr [(lit ''aaa'', hit_b), (lit ''bbb'', hit_c)]
   \<and> distinct (map fst [(lit ''aaa'', hit_b), (lit ''bbb'', hit_c)])
   \<and> (\<exists>s pre post. pageContent hit_b = JStr s \<and> lit ''aaa'' = take 100 s
         \<and> [hit_a, hit_b, hit_d, hit_c] = pre @ hit_b # post)
   \<and> score hit_a < score hit_b \<and> score hit_d \<le> score hit_b"
proof -
  have e: "dedup [] [hit_a, hit_b, hit_d, hit_c] = Inr [(lit ''aaa'', hit_b), (lit ''bbb'', hit_c)]"
    by (simp add: dedup_step_def contentIdentifier_def map_has_def map_get_def substring_def
        lit_def hit_a_def hit_b_def hit_c_def hit_d_def)
  note kept = dedup_keeps_first_highest [OF e]
  from kept have d: "distinct (map fst [(lit ''aaa'', hit_b), (lit ''bbb'', hit_c)])"
    by blast
  from kept have "\<forall>p\<in>set [(lit ''aaa'', hit_b), (lit ''bbb'', hit_c)]. \<exists>s pre post.
      pageContent (snd p) = JStr s \<and> fst p = take 100 s
      \<and> [hit_a, hit_b, hit_d, hit_c] = pre @ snd p # post"
    by blast
  then have x: "\<exists>s pre post. pageContent hit_b = JStr s \<and> lit ''aaa'' = take 100 s
      \<and> [hit_a, hit_b, hit_d, hit_c] = pre @ hit_b # post"
    by simp
  have s: "score hit_a < score hit_b \<and> score hit_d \<le> score hit_b"
    by (simp add: hit_a_def hit_b_def hit_d_def)
  from e d x s show ?thesis by blast
qed

lemma dedup_subset: "dedup m hs = Inr m' \<Longrightarrow> snd ` set m' \<subseteq> snd ` set m \<union> set hs"
proof (induction hs arbitrary: m)
  case Nil then show ?case by simp
next
  case (Cons h hs)
  from Cons.prems obtain m1 where s: "dedup_step m h = Inr m1" and r: "dedup m1 hs = Inr m'"
    by (auto split: sum.splits)
  have "set m1 \<subseteq> insert (projr (contentIdentifier h), h) (set m)"
    using s set_map_set by (auto simp: dedup_step_def split: sum.splits if_splits)
  then have "snd ` set m1 \<subseteq> insert h (snd ` set m)" by auto
  with Cons.IH[OF r] show ?case by auto
qed

text \<open>
  Claim C9. Every entry of the list the merge step returns is one of the flattened
  input hits, with the content, metadata, score and query tag it had there.
\<close>

theorem mergedResults_from_input:
  assumes "mergedResults flatResults k = Inr merged"
  shows "set merged \<subseteq> set flatResults"
proof -
  from assms obtain m where m: "dedup [] flatResults = Inr m"
    and merged: "merged = take k (sort_by_score (map_values m))"
    by (auto simp: mergedResults_Inr)
  have "set merged \<subseteq> snd ` set m"
    unfolding merged sort_by_score_def map_values_def
    using set_take_subset[of k "sort_key (\<lambda>h. - score h) (map snd m)"] by simp
  with dedup_subset[OF m] show ?thesis by auto
qed

theorem mergedResults_from_input_witness:
  "mergedResults [hit_c, hit_a, hit_b] 1 = Inr [hit_b] \<and> hit_b \<in> set [hit_c, hit_a, hit_b]"
proof -
  have e: "mergedResults [hit_c, hit_a, hit_b] 1 = Inr [hit_b]"
    by (simp add: mergedResults_def dedup_step_def contentIdentifier_def map_has_def
        map_get_def substring_def lit_def sort_by_score_def map_values_def
        hit_a_def hit_b_def hit_c_def)
  from mergedResults_from_input [OF e] have "hit_b \<in> set [hit_c, hit_a, hit_b]"
    by simp
  with e show ?thesis by blast
qed

text \<open>
  Claim C7. On an empty list of hits the merge step returns the empty list, and no
  error, for every count \<open>k\<close>.
\<close>

theorem mergedResults_empty: "mergedResults [] k = Inr []"
  by (simp add: mergedResults_def sort_by_score_def map_values_def)

section \<open>Query expansion: the three outcomes\<close>

text \<open>
  Claim C3. For every original query and every behaviour of the generative service and
  of the parser (a parsed answer, an answer that does not parse, a failed call), the
  expander returns a list of length at least 1 whose first element is the original
  query; when the call fails the list is the original query alone.
\<close>

theorem generateQueryVariations_first:
  "generateQueryVariations env originalQuery \<noteq> []
   \<and> hd (generateQueryVariations env originalQuery) = JStr originalQuery
   \<and> 1 \<le> length (generateQueryVariations env originalQuery)
   \<and> (generateContent env (prompt originalQuery) = None
        \<longrightarrow> generateQueryVariations env originalQuery = [JStr originalQuery])"
  by (simp add: generateQueryVariations_def fallbackVariations_def Let_def
      split: option.splits sum.splits)

theorem generateQueryVariations_first_witness:
  "generateContent (env_ex None []) (prompt (lit ''streams'')) = None
   \<and> generateQueryVariations (env_ex None []) (lit ''streams'') = [JStr (lit ''streams'')]
   \<and> hd (generateQueryVariations (env_ex None []) (lit ''streams'')) = JStr (lit ''streams'')"
  using generateQueryVariations_first [of "env_ex None []" "lit ''streams''"]
  by (simp add: env_ex_def)

text \<open>
  Claim C4. When the call succeeds and the answer, fences stripped and trimmed, does not
  parse, the expander returns four elements: the original query and the three phrases
  built from it by the fixed templates. The list depends on the query alone.
\<close>

theorem generateQueryVariations_parse_failure:
  assumes "generateContent env (prompt originalQuery) = Some responseText"
    and "JSON_parse env (trim (strip_fences responseText)) = None"
  shows "generateQueryVariations env originalQuery =
           [JStr originalQuery,
            JStr (lit ''What are the technical aspects of '' @ originalQuery @ lit ''?''),
            JStr (lit ''Examples of '' @ originalQuery @ lit '' in Node.js''),
            JStr (lit ''Explain the concept of '' @ originalQuery @ lit '' in Node.js'')]
       \<and> length (generateQueryVariations env originalQuery) = 4"
  using assms by (simp add: generateQueryVariations_def fallbackVariations_def)

theorem generateQueryVariations_parse_failure_witness:
  "generateContent (env_ex (Some response_prose) []) (prompt (lit ''streams'')) = Some response_prose
   \<and> JSON_parse (env_ex (Some response_prose) []) (trim (strip_fences response_prose)) = None
   \<and> generateQueryVariations (env_ex (Some response_prose) []) (lit ''streams'') =
        [JStr (lit ''streams''),
         JStr (lit ''What are the technical aspects of streams?''),
         JStr (lit ''Examples of streams in Node.js''),
         JStr (lit ''Explain the concept of streams in Node.js'')]
   \<and> length (generateQueryVariations (env_ex (Some response_prose) []) (lit ''streams'')) = 4"
proof -
  have c: "generateContent (env_ex (Some response_prose) []) (prompt (lit ''streams'')) = Some response_prose"
    by (simp add: env_ex_def)
  have p: "JSON_parse (env_ex (Some response_prose) []) (trim (strip_fences response_prose)) = None"
    by (simp add: ex_defs)
  from generateQueryVariations_parse_failure [OF c p] c p show ?thesis
    by (simp add: lit_def)
qed

lemma generateQueryVariations_array:
  assumes "generateContent env (prompt originalQuery) = Some responseText"
    and "JSON_parse env (trim (strip_fences responseText)) = Some (JArr variations)"
  shows "generateQueryVariations env originalQuery = JStr originalQuery # variations
       \<and> length (generateQueryVariations env originalQuery) = Suc (length variations)"
  using assms by (simp add: generateQueryVariations_def)

text \<open>
  Claim C5. When the call succeeds and the answer, fences stripped and trimmed, parses
  as the JSON array of exactly three strings that the service is asked for, the result
  is the original query followed by those three strings: a list of length exactly 4.
\<close>

theorem generateQueryVariations_three_strings:
  assumes "generateContent env (prompt originalQuery) = Some responseText"
    and "JSON_parse env (trim (strip_fences responseText)) = Some (JArr [JStr a, JStr b, JStr c])"
  shows "generateQueryVariations env originalQuery = [JStr originalQuery, JStr a, JStr b, JStr c]
       \<and> length (generateQueryVariations env originalQuery) = 4"
  using generateQueryVariations_array [OF assms] by simp

theorem generateQueryVariations_three_strings_witness:
  "generateContent (env_ex (Some response_three) []) (prompt (lit ''streams'')) = Some response_three
   \<and> JSON_parse (env_ex (Some response_three) []) (trim (strip_fences response_three))
       = Some (JArr [JStr (lit ''a''), JStr (lit ''b''), JStr (lit ''c'')])
   \<and> generateQueryVariations (env_ex (Some response_three) []) (lit ''streams'')
       = [JStr (lit ''streams''), JStr (lit ''a''), JStr (lit ''b''), JStr (lit ''c'')]
   \<and> length (generateQueryVariations (env_ex (Some response_three) []) (lit ''streams'')) = 4"
proof -
  have c: "generateContent (env_ex (Some response_three) []) (prompt (lit ''streams'')) = Some response_three"
    by (simp add: env_ex_def)
  have p: "JSON_parse (env_ex (Some response_three) []) (trim (strip_fences response_three))
       = Some (JArr [JStr (lit ''a''), JStr (lit ''b''), JStr (lit ''c'')])"
    by (simp add: ex_defs)
  from generateQueryVariations_three_strings [OF c p] c p show ?thesis
    by simp
qed

text \<open>The code does not check what was parsed. An array of another length is spread
  all the same: two strings give a result of length 3.\<close>

lemma generateQueryVariations_two_strings:
  "generateQueryVariations (env_ex (Some response_two) []) (lit ''streams'')
     = [JStr (lit ''streams''), JStr (lit ''x''), JStr (lit ''y'')]"
  by (simp add: generateQueryVariations_def ex_defs)

text \<open>A parsed value that cannot be spread (a number, a boolean, \<open>null\<close>, an object)
  throws inside the inner \<open>try\<close> and ends in the same four templated variations.\<close>

lemma generateQueryVariations_not_iterable:
  assumes "generateContent env (prompt originalQuery) = Some responseText"
    and "JSON_parse env (trim (strip_fences responseText)) = Some v"
    and "spread v = Inl e"
  shows "generateQueryVariations env originalQuery = fallbackVariations originalQuery"
  using assms by (simp add: generateQueryVariations_def)

section \<open>The searches of the variations\<close>

lemma singleQuerySearch_string: "\<exists>hits. singleQuerySearch env (JStr s) k = Inr hits"
  by (simp add: singleQuerySearch_def split: sum.splits)


lemma promise_all_map_Inr: "promise_all (map Inr xs) = Inr xs"
  by (induction xs) simp_all

lemma promise_all_Inr:
  "promise_all ps = Inr xs \<longleftrightarrow> ps = map Inr xs"
proof
  show "promise_all ps = Inr xs \<Longrightarrow> ps = map Inr xs"
    by (induction ps arbitrary: xs rule: promise_all.induct) (auto split: sum.splits)
  show "ps = map Inr xs \<Longrightarrow> promise_all ps = Inr xs"
    by (simp add: promise_all_map_Inr)
qed




text \<open>
  Claim C10. When the \<open>try\<close> block of \<open>parallelQuerySearch\<close> throws, the function
  returns what \<open>singleQuerySearch\<close> returns for the original query and the same \<open>k\<close>,
  and that is a list of hits, never an error.
\<close>

theorem parallelQuerySearch_fallback:
  assumes "parallelQuerySearch_try env originalQuery k = Inl e"
  shows "parallelQuerySearch env originalQuery k = singleQuerySearch env (JStr originalQuery) k
       \<and> (\<exists>hits. parallelQuerySearch env originalQuery k = Inr hits)"
  using assms singleQuerySearch_string[of env originalQuery k]
  by (simp add: parallelQuerySearch_def)

theorem parallelQuerySearch_fallback_witness:
  "parallelQuerySearch_try (env_ex (Some response_two) [point_a, point_u]) (lit ''streams'') 4
     = Inl TypeError
   \<and> parallelQuerySearch (env_ex (Some response_two) [point_a, point_u]) (lit ''streams'') 4
     = singleQuerySearch (env_ex (Some response_two) [point_a, point_u]) (JStr (lit ''streams'')) 4
   \<and> parallelQuerySearch (env_ex (Some response_two) [point_a, point_u]) (lit ''streams'') 4
     = Inr [\<lparr>pageContent = JStr (lit ''aaa''), metadata = JNull, score = 0.9, query = JStr (lit ''streams'')\<rparr>,
            \<lparr>pageContent = Undefined, metadata = JNull, score = 0.8, query = JStr (lit ''streams'')\<rparr>]"
proof -
  have s: "singleQuerySearch (env_ex (Some response_two) [point_a, point_u]) q 4
     = Inr [\<lparr>pageContent = JStr (lit ''aaa''), metadata = JNull, score = 0.9, query = q\<rparr>,
            \<lparr>pageContent = Undefined, metadata = JNull, score = 0.8, query = q\<rparr>]"
    if "q \<noteq> JStr (lit ''bad'')" for q
    using that by (simp add: singleQuerySearch_def singleQuerySearch_try_def getEmbeddings_def
        env_ex_def embed_ex_def point_a_def point_u_def)
  have v: "generateQueryVariations (env_ex (Some response_two) [point_a, point_u]) (lit ''streams'')
       = [JStr (lit ''streams''), JStr (lit ''x''), JStr (lit ''y'')]"
    by (simp add: generateQueryVariations_def ex_defs)
  have t: "parallelQuerySearch_try (env_ex (Some response_two) [point_a, point_u]) (lit ''streams'') 4
     = Inl TypeError"
    unfolding parallelQuerySearch_try_def v
    by (simp add: allResults_def s lit_def mergedResults_def dedup_step_def contentIdentifier_def
        map_has_def map_get_def substring_def)
  from parallelQuerySearch_fallback [OF t] t s [of "JStr (lit ''streams'')"] show ?thesis
    by (simp add: lit_def)
qed

section \<open>Indexing in batches\<close>

lemma slice_batch:
  assumes "i < length docs"
  shows "slice docs i (min (i + batchSize) (length docs)) = take batchSize (drop i docs)"
  using assms by (auto simp: slice_def min_def batchSize_def)

lemma length_batch:
  "length (take batchSize (drop i docs)) = min (i + batchSize) (length docs) - i"
  by (auto simp: min_def)

lemma zip_upt_map:
  "map (\<lambda>(j, x). f j x) (zip [i ..< i + length xs] xs) = map (\<lambda>n. f (i + n) (xs ! n)) [0 ..< length xs]"
  by (rule nth_equalityI) simp_all

lemma map_upt_shift:
  "map (\<lambda>n. g (i + n)) [0 ..< k] = map g [i ..< i + k]"
  by (rule nth_equalityI) simp_all

lemma zip_batch:
  "map (\<lambda>(j, doc). f j doc) (zip [i ..< i + length (take m (drop i docs))] (take m (drop i docs)))
     = map (\<lambda>j. f j (docs ! j)) [i ..< min (i + m) (length docs)]"
proof -
  let ?xs = "take m (drop i docs)"
  have len: "i + length ?xs = min (i + m) (length docs) \<or> (length docs \<le> i \<and> length ?xs = 0)"
    by (cases "i \<le> length docs") (auto simp: min_def)
  have "map (\<lambda>(j, doc). f j doc) (zip [i ..< i + length ?xs] ?xs)
      = map (\<lambda>n. f (i + n) (?xs ! n)) [0 ..< length ?xs]"
    by (rule zip_upt_map)
  also have "\<dots> = map (\<lambda>n. f (i + n) (docs ! (i + n))) [0 ..< length ?xs]"
  proof (rule map_cong)
    fix n assume "n \<in> set [0 ..< length ?xs]"
    then have "n < m" "i \<le> length docs" by auto
    then show "f (i + n) (?xs ! n) = f (i + n) (docs ! (i + n))" by simp
  qed simp
  also have "\<dots> = map (\<lambda>j. f j (docs ! j)) [i ..< i + length ?xs]"
    by (rule map_upt_shift)
  also have "\<dots> = map (\<lambda>j. f j (docs ! j)) [i ..< min (i + m) (length docs)]"
    using len by auto
  finally show ?thesis .
qed

lemma embed_calls_append: "embed_calls (xs @ ys) = embed_calls xs @ embed_calls ys"
  by (induction xs rule: embed_calls.induct) simp_all

lemma upsert_calls_append: "upsert_calls (xs @ ys) = upsert_calls xs @ upsert_calls ys"
  by (induction xs rule: upsert_calls.induct) simp_all

lemma embed_calls_Embed: "embed_calls (map (\<lambda>x. Embed (f x)) xs) = map f xs"
  by (induction xs) simp_all

lemma upsert_calls_Embed: "upsert_calls (map (\<lambda>x. Embed (f x)) xs) = []"
  by (induction xs) simp_all

lemma map_zip_snd:
  "length js = length xs \<Longrightarrow> map (\<lambda>(j, x). h x) (zip js xs) = map h xs"
  by (induction js xs rule: list_induct2) simp_all

lemma map_batch:
  "map h (take m (drop i docs)) = map (\<lambda>j. h (docs ! j)) [i ..< min (i + m) (length docs)]"
proof -
  let ?xs = "take m (drop i docs)"
  have "map h ?xs = map (\<lambda>(j, doc). h doc) (zip [i ..< i + length ?xs] ?xs)"
    by (rule map_zip_snd [symmetric]) simp
  also have "\<dots> = map (\<lambda>j. h (docs ! j)) [i ..< min (i + m) (length docs)]"
    by (rule zip_batch)
  finally show ?thesis .
qed

lemma indexBatches_unfold:
  assumes "i < length docs"
  shows "indexBatches env docs i tr =
     (case promise_all (map (\<lambda>j. makePoint env j (docs ! j)) [i ..< min (i + batchSize) (length docs)]) of
        Inl e \<Rightarrow> (Inl e, tr @ map (\<lambda>doc. Embed (JStr (doc_pageContent doc))) (take batchSize (drop i docs)))
      | Inr points \<Rightarrow>
          if upsert env points
          then indexBatches env docs (i + batchSize)
                 (tr @ map (\<lambda>doc. Embed (JStr (doc_pageContent doc))) (take batchSize (drop i docs))
                     @ [Upsert points])
          else (Inl ServiceError,
                 tr @ map (\<lambda>doc. Embed (JStr (doc_pageContent doc))) (take batchSize (drop i docs))
                    @ [Upsert points]))"
  apply (subst indexBatches.simps)
  apply (simp only: assms if_True Let_def slice_batch [OF assms] zip_batch)
  apply (cases "promise_all (map (\<lambda>j. makePoint env j (docs ! j)) [i ..< min (i + batchSize) (length docs)])")
   apply simp_all
  done

lemma indexBatches_done:
  "\<not> i < length docs \<Longrightarrow> indexBatches env docs i tr = (Inr (), tr)"
  by (subst indexBatches.simps) simp

lemma batch_count: "i < n \<Longrightarrow> (n - i + 19) div 20 = Suc ((n - (i + 20) + 19) div 20)"
  for i n :: nat
  by (cases "i + 20 \<le> n") auto

lemma upt_0_Suc: "[0 ..< Suc m] = 0 # map Suc [0 ..< m]"
  by (simp only: map_Suc_upt upt_conv_Cons [of 0 "Suc m"] zero_less_Suc)

lemma concat_map_upt_Suc:
  "concat (map H [0 ..< Suc m]) = H 0 @ concat (map (\<lambda>b. H (Suc b)) [0 ..< m])"
  by (simp only: upt_0_Suc list.map concat.simps map_map comp_def)

text \<open>
  The trace of a run that completes from index \<open>i\<close> on: for each batch in turn, the
  embedding calls of its documents, then its upsert.
\<close>

lemma indexBatches_complete:
  assumes "indexBatches env docs i tr = (Inr (), tr')"
  shows "\<exists>bs. length bs = (length docs - i + 19) div 20
             \<and> (\<forall>b<length bs. map Inr (bs ! b) =
                   map (\<lambda>j. makePoint env j (docs ! j))
                     [i + 20 * b ..< min (i + 20 * b + 20) (length docs)])
             \<and> map Inr (concat bs) = map (\<lambda>j. makePoint env j (docs ! j)) [i ..< length docs]
             \<and> tr' = tr @ concat (map (\<lambda>b.
                   map (\<lambda>j. Embed (JStr (doc_pageContent (docs ! j))))
                     [i + 20 * b ..< min (i + 20 * b + 20) (length docs)]
                   @ [Upsert (bs ! b)]) [0 ..< length bs])
             \<and> embed_calls tr' = embed_calls tr @ map (\<lambda>doc. JStr (doc_pageContent doc)) (drop i docs)"
  using assms
proof (induction "length docs - i" arbitrary: i tr rule: less_induct)
  case less
  show ?case
  proof (cases "i < length docs")
    case False
    with less.prems have "tr' = tr" by (simp add: indexBatches_done)
    with False show ?thesis by simp
  next
    case True
    let ?F = "\<lambda>j. makePoint env j (docs ! j)"
    let ?E = "\<lambda>j. Embed (JStr (doc_pageContent (docs ! j)))"
    let ?tr2 = "\<lambda>points. tr @ map (\<lambda>doc. Embed (JStr (doc_pageContent doc))) (take batchSize (drop i docs))
                  @ [Upsert points]"
    from less.prems True obtain points where
      pts: "promise_all (map ?F [i ..< min (i + batchSize) (length docs)]) = Inr points"
      and rec: "indexBatches env docs (i + batchSize) (?tr2 points) = (Inr (), tr')"
      by (auto simp: indexBatches_unfold split: sum.splits if_splits)
    have m: "length docs - (i + batchSize) < length docs - i"
      using True by (simp add: batchSize_def)
    from less.hyps [OF m rec] obtain bs where
      l: "length bs = (length docs - (i + batchSize) + 19) div 20"
      and n: "\<forall>b<length bs. map Inr (bs ! b) =
                   map ?F [i + batchSize + 20 * b ..< min (i + batchSize + 20 * b + 20) (length docs)]"
      and c: "map Inr (concat bs) = map ?F [i + batchSize ..< length docs]"
      and t: "tr' = ?tr2 points @ concat (map (\<lambda>b.
                   map ?E [i + batchSize + 20 * b ..< min (i + batchSize + 20 * b + 20) (length docs)]
                   @ [Upsert (bs ! b)]) [0 ..< length bs])"
      and e: "embed_calls tr' = embed_calls (?tr2 points)
                 @ map (\<lambda>doc. JStr (doc_pageContent doc)) (drop (i + batchSize) docs)"
      by blast
    have "take batchSize (drop i docs) @ drop (i + batchSize) docs = drop i docs"
      by (metis add.commute append_take_drop_id drop_drop)
    then have "map (\<lambda>doc. JStr (doc_pageContent doc)) (take batchSize (drop i docs))
        @ map (\<lambda>doc. JStr (doc_pageContent doc)) (drop (i + batchSize) docs)
        = map (\<lambda>doc. JStr (doc_pageContent doc)) (drop i docs)"
      by (metis map_append)
    with e have E: "embed_calls tr' = embed_calls tr @ map (\<lambda>doc. JStr (doc_pageContent doc)) (drop i docs)"
      by (simp add: embed_calls_append embed_calls_Embed)
    have "length (points # bs) = Suc (length bs)" by simp
    also have "\<dots> = Suc ((length docs - (i + 20) + 19) div 20)"
      using l by (simp only: batchSize_def)
    also have "\<dots> = (length docs - i + 19) div 20"
      by (rule batch_count [OF True, symmetric])
    finally have L: "length (points # bs) = (length docs - i + 19) div 20" .
    have p0: "map Inr points = map ?F [i ..< min (i + 20) (length docs)]"
      using pts by (simp add: promise_all_Inr batchSize_def)
    have N: "\<forall>b<length (points # bs). map Inr ((points # bs) ! b) =
                   map ?F [i + 20 * b ..< min (i + 20 * b + 20) (length docs)]"
    proof (intro allI impI)
      fix b assume b: "b < length (points # bs)"
      show "map Inr ((points # bs) ! b) =
                   map ?F [i + 20 * b ..< min (i + 20 * b + 20) (length docs)]"
      proof (cases b)
        case 0
        then show ?thesis using p0 by simp
      next
        case (Suc b')
        with b have "b' < length bs" by simp
        with n have "map Inr (bs ! b') =
                   map ?F [i + batchSize + 20 * b' ..< min (i + batchSize + 20 * b' + 20) (length docs)]"
          by blast
        then show ?thesis using Suc by (simp add: batchSize_def add.assoc)
      qed
    qed
    have "[i ..< min (i + 20) (length docs)] @ [i + 20 ..< length docs] = [i ..< length docs]"
    proof (cases "i + 20 \<le> length docs")
      case True
      then show ?thesis using upt_add_eq_append [of i "i + 20" "length docs - (i + 20)"] by simp
    next
      case False
      then show ?thesis by (simp add: min_def)
    qed
    then have "map ?F [i ..< min (i + 20) (length docs)] @ map ?F [i + 20 ..< length docs]
        = map ?F [i ..< length docs]"
      by (metis map_append)
    with p0 c have C: "map Inr (concat (points # bs)) = map ?F [i ..< length docs]"
      by (simp add: batchSize_def)
    let ?H = "\<lambda>b. map ?E [i + 20 * b ..< min (i + 20 * b + 20) (length docs)]
                   @ [Upsert ((points # bs) ! b)]"
    have first: "map (\<lambda>doc. Embed (JStr (doc_pageContent doc))) (take batchSize (drop i docs)) @ [Upsert points]
        = ?H 0"
      by (simp add: map_batch batchSize_def)
    have rest: "(\<lambda>b. map ?E [i + batchSize + 20 * b ..< min (i + batchSize + 20 * b + 20) (length docs)]
                   @ [Upsert (bs ! b)]) = (\<lambda>b. ?H (Suc b))"
      by (rule ext) (simp add: batchSize_def add.assoc)
    have "concat (map ?H [0 ..< length (points # bs)])
        = ?H 0 @ concat (map (\<lambda>b. ?H (Suc b)) [0 ..< length bs])"
      by (simp only: length_Cons concat_map_upt_Suc)
    with t first rest have T: "tr' = tr @ concat (map ?H [0 ..< length (points # bs)])"
      by (simp only: append_assoc)
    from L N C T E show ?thesis by blast
  qed
qed

lemma indexBatches_succeeds:
  assumes "\<forall>doc\<in>set docs. embedContent env (JStr (doc_pageContent doc)) \<noteq> None"
    and "\<forall>points. upsert env points"
  shows "\<exists>tr'. indexBatches env docs i tr = (Inr (), tr')"
proof (induction "length docs - i" arbitrary: i tr rule: less_induct)
  case less
  show ?case
  proof (cases "i < length docs")
    case False
    then show ?thesis by (simp add: indexBatches_done)
  next
    case True
    have "\<forall>j\<in>set [i ..< min (i + batchSize) (length docs)]. \<exists>p. makePoint env j (docs ! j) = Inr p"
      using assms(1) by (auto simp: makePoint_def getEmbeddings_def split: option.splits)
    then have "\<exists>points. map (\<lambda>j. makePoint env j (docs ! j)) [i ..< min (i + batchSize) (length docs)]
        = map Inr points"
      by (induction "[i ..< min (i + batchSize) (length docs)]" arbitrary: i)
         (auto simp: map_eq_Cons_conv Cons_eq_map_conv ex_map_conv)
    then obtain points where
      "promise_all (map (\<lambda>j. makePoint env j (docs ! j)) [i ..< min (i + batchSize) (length docs)]) = Inr points"
      by (auto simp: promise_all_map_Inr)
    moreover have "length docs - (i + batchSize) < length docs - i"
      using True by (simp add: batchSize_def)
    ultimately show ?thesis
      using True assms(2) less.hyps by (simp add: indexBatches_unfold)
  qed
qed

lemma addDocumentsToVectorStore_completes:
  assumes "getCollections env = Some names"
    and "collectionName env \<in> set names \<or> createCollection env"
    and "\<forall>doc\<in>set docs. embedContent env (JStr (doc_pageContent doc)) \<noteq> None"
    and "\<forall>points. upsert env points"
  shows "\<exists>tr. addDocumentsToVectorStore env docs = (Inr (), tr)"
  using assms(1,2) indexBatches_succeeds [OF assms(3,4)]
  by (auto simp: addDocumentsToVectorStore_def createCollectionIfNotExists_def)

lemma makePoint_content:
  "makePoint env j doc = Inr p \<Longrightarrow> content (pt_payload p) = JStr (doc_pageContent doc)"
  by (auto simp: makePoint_def split: sum.splits)

lemma upserted_contents:
  assumes "map Inr points = map (\<lambda>j. makePoint env j (docs ! j)) [0 ..< length docs]"
  shows "map (\<lambda>p. content (pt_payload p)) points = map (\<lambda>doc. JStr (doc_pageContent doc)) docs"
proof (rule nth_equalityI)
  from assms have "length points = length [0 ..< length docs]"
    by (rule map_eq_imp_length_eq)
  then have len: "length points = length docs" by simp
  then show "length (map (\<lambda>p. content (pt_payload p)) points)
      = length (map (\<lambda>doc. JStr (doc_pageContent doc)) docs)"
    by simp
  fix n assume "n < length (map (\<lambda>p. content (pt_payload p)) points)"
  then have n: "n < length docs" "n < length points" using len by simp_all
  from assms have "map (Inr :: point \<Rightarrow> js_error + point) points ! n
      = map (\<lambda>j. makePoint env j (docs ! j)) [0 ..< length docs] ! n"
    by (simp only:)
  with n have "makePoint env n (docs ! n) = Inr (points ! n)" by simp
  then have "content (pt_payload (points ! n)) = JStr (doc_pageContent (docs ! n))"
    by (rule makePoint_content)
  with n show "map (\<lambda>p. content (pt_payload p)) points ! n
      = map (\<lambda>doc. JStr (doc_pageContent doc)) docs ! n"
    by simp
qed

text \<open>What the two readings of a batch-by-batch trace are.\<close>

lemma calls_of_batches:
  "upsert_calls (concat (map (\<lambda>b. map (\<lambda>j. Embed (f j)) (js b) @ [Upsert (ps b)]) bs)) = map ps bs"
  "embed_calls (concat (map (\<lambda>b. map (\<lambda>j. Embed (f j)) (js b) @ [Upsert (ps b)]) bs))
     = concat (map (\<lambda>b. map f (js b)) bs)"
  by (induction bs)
     (simp_all add: upsert_calls_append embed_calls_append embed_calls_Embed upsert_calls_Embed)


text \<open>
  Claim C8, as stated, speaks of every run. A run in which a call fails stops there and
  rethrows: with one document whose embedding fails there is one batch, one embedding
  call and no upsert.
\<close>

theorem addDocumentsToVectorStore_failure_counterexample:
  "addDocumentsToVectorStore (env_ex None []) [doc_ex ''bad'']
     = (Inl ServiceError, [Embed (JStr (lit ''bad''))])
   \<and> length (upsert_calls (snd (addDocumentsToVectorStore (env_ex None []) [doc_ex ''bad''])))
       \<noteq> (length [doc_ex ''bad''] + 19) div 20"
proof -
  have "addDocumentsToVectorStore (env_ex None []) [doc_ex ''bad'']
     = (Inl ServiceError, [Embed (JStr (lit ''bad''))])"
    by (simp add: addDocumentsToVectorStore_def createCollectionIfNotExists_def
        indexBatches.simps slice_def batchSize_def makePoint_def getEmbeddings_def
        doc_ex_def ex_defs)
  then show ?thesis by simp
qed

text \<open>
  Claim C8, amended. Whenever \<open>addDocumentsToVectorStore\<close> returns without throwing
  (as it does when the collection check, every embedding call and every upsert call
  succeed), it has worked through the consecutive batches of 20 documents (the last one
  possibly smaller) one after the other, in order: its calls are, for batch 0, then
  batch 1, and so on, the embedding calls of the documents of the batch followed by the
  one upsert of the batch, so that no embedding call of a batch is made before the
  upsert of the batch before it. There are \<open>ceil(n / 20)\<close> upsert calls in all; batch
  \<open>b\<close> holds the points of documents \<open>20 b\<close> up to \<open>20 b + 19\<close>; every document was
  handed to the embedding service once and upserted once.
\<close>

theorem addDocumentsToVectorStore_batches:
  assumes "addDocumentsToVectorStore env documents = (Inr (), tr)"
  shows "length (upsert_calls tr) = (length documents + 19) div 20
       \<and> (\<forall>b<length (upsert_calls tr). map Inr (upsert_calls tr ! b) =
             map (\<lambda>j. makePoint env j (documents ! j))
               [20 * b ..< min (20 * b + 20) (length documents)])
       \<and> tr = concat (map (\<lambda>b.
             map (\<lambda>j. Embed (JStr (doc_pageContent (documents ! j))))
               [20 * b ..< min (20 * b + 20) (length documents)]
             @ [Upsert (upsert_calls tr ! b)]) [0 ..< length (upsert_calls tr)])
       \<and> embed_calls tr = map (\<lambda>doc. JStr (doc_pageContent doc)) documents
       \<and> map (\<lambda>p. content (pt_payload p)) (concat (upsert_calls tr))
           = map (\<lambda>doc. JStr (doc_pageContent doc)) documents"
proof -
  from assms have "indexBatches env documents 0 [] = (Inr (), tr)"
    by (simp add: addDocumentsToVectorStore_def split: sum.splits)
  from indexBatches_complete [OF this] obtain bs where
    l: "length bs = (length documents + 19) div 20"
    and n: "\<forall>b<length bs. map Inr (bs ! b) =
             map (\<lambda>j. makePoint env j (documents ! j))
               [20 * b ..< min (20 * b + 20) (length documents)]"
    and c: "map Inr (concat bs) = map (\<lambda>j. makePoint env j (documents ! j)) [0 ..< length documents]"
    and t: "tr = concat (map (\<lambda>b.
             map (\<lambda>j. Embed (JStr (doc_pageContent (documents ! j))))
               [20 * b ..< min (20 * b + 20) (length documents)]
             @ [Upsert (bs ! b)]) [0 ..< length bs])"
    and e: "embed_calls tr = map (\<lambda>doc. JStr (doc_pageContent doc)) documents"
    by auto
  have "upsert_calls tr = map (\<lambda>b. bs ! b) [0 ..< length bs]"
    by (subst t) (rule calls_of_batches(1))
  then have u: "upsert_calls tr = bs" by (simp only: map_nth)
  from c have "map (\<lambda>p. content (pt_payload p)) (concat bs)
      = map (\<lambda>doc. JStr (doc_pageContent doc)) documents"
    by (rule upserted_contents)
  with e l n t show ?thesis unfolding u by blast
qed

theorem addDocumentsToVectorStore_batches_witness:
  "fst (addDocumentsToVectorStore (env_ex None []) (replicate 21 (doc_ex ''one''))) = Inr ()
   \<and> length (upsert_calls (snd (addDocumentsToVectorStore (env_ex None []) (replicate 21 (doc_ex ''one''))))) = 2
   \<and> embed_calls (snd (addDocumentsToVectorStore (env_ex None []) (replicate 21 (doc_ex ''one''))))
       = replicate 21 (JStr (lit ''one''))
   \<and> (\<exists>first second.
         snd (addDocumentsToVectorStore (env_ex None []) (replicate 21 (doc_ex ''one'')))
           = replicate 20 (Embed (JStr (lit ''one''))) @ [Upsert first]
             @ [Embed (JStr (lit ''one''))] @ [Upsert second])"
proof -
  let ?r = "addDocumentsToVectorStore (env_ex None []) (replicate 21 (doc_ex ''one''))"
  have "\<exists>tr. ?r = (Inr (), tr)"
    by (rule addDocumentsToVectorStore_completes [where names = "[]"])
       (simp_all add: env_ex_def embed_ex_def doc_ex_def lit_def)
  then obtain tr where e: "?r = (Inr (), tr)" by blast
  note b = addDocumentsToVectorStore_batches [OF e]
  from b have 1: "length (upsert_calls tr) = 2" by simp
  from b have 2: "embed_calls tr = replicate 21 (JStr (lit ''one''))"
    by (simp add: doc_ex_def)
  have 20: "map (\<lambda>j. Embed (JStr (doc_pageContent (replicate 21 (doc_ex ''one'') ! j)))) [0 ..< 20]
      = replicate 20 (Embed (JStr (lit ''one'')))"
    by (rule nth_equalityI) (simp_all add: doc_ex_def)
  have 21: "map (\<lambda>j. Embed (JStr (doc_pageContent (replicate 21 (doc_ex ''one'') ! j)))) [20 ..< 21]
      = [Embed (JStr (lit ''one''))]"
    by (rule nth_equalityI) (simp_all add: doc_ex_def)
  have up: "[0 ..< 2] = [0, Suc 0]"
    by (simp add: numeral_2_eq_2)
  from b have "tr = concat (map (\<lambda>b.
             map (\<lambda>j. Embed (JStr (doc_pageContent (replicate 21 (doc_ex ''one'') ! j))))
               [20 * b ..< min (20 * b + 20) (length (replicate 21 (doc_ex ''one'')))]
             @ [Upsert (upsert_calls tr ! b)]) [0 ..< length (upsert_calls tr)])"
    by blast
  then have "tr = replicate 20 (Embed (JStr (lit ''one''))) @ [Upsert (upsert_calls tr ! 0)]
             @ [Embed (JStr (lit ''one''))] @ [Upsert (upsert_calls tr ! Suc 0)]"
    unfolding 1 up using 20 21 by simp
  then have 3: "\<exists>first second. tr = replicate 20 (Embed (JStr (lit ''one''))) @ [Upsert first]
             @ [Embed (JStr (lit ''one''))] @ [Upsert second]"
    by blast
  show ?thesis unfolding e using 1 2 3 by simp
qed

end
